theory Spec2Isabelle
  imports Main
begin

section \<open>Python strings and lists\<close>

text \<open>
  A Python \<open>str\<close> is modelled as a \<open>string\<close>, each character being a code point below
  256. The two character classes below are the ones the source's regular expressions and
  \<open>str.strip\<close> use: \<open>str.isspace\<close> (the class \<open>\s\<close>) and the word characters \<open>\w\<close>
  (alphanumeric or underscore), as Python classifies the code points of that range.
\<close>

type_synonym path = string

definition is_space :: "char \<Rightarrow> bool" where
  "is_space c =
     (let n = (of_char c :: nat)
      in (9 \<le> n \<and> n \<le> 13) \<or> (28 \<le> n \<and> n \<le> 32) \<or> n = 133 \<or> n = 160)"

definition is_word_char :: "char \<Rightarrow> bool" where
  "is_word_char c =
     (let n = (of_char c :: nat)
      in (48 \<le> n \<and> n \<le> 57) \<or> (65 \<le> n \<and> n \<le> 90) \<or> n = 95 \<or> (97 \<le> n \<and> n \<le> 122)
         \<or> n = 170 \<or> n = 178 \<or> n = 179 \<or> n = 181 \<or> n = 185 \<or> n = 186
         \<or> (188 \<le> n \<and> n \<le> 190) \<or> (192 \<le> n \<and> n \<le> 214) \<or> (216 \<le> n \<and> n \<le> 246)
         \<or> 248 \<le> n)"

text \<open>The character class \<open>[.!?]\<close> of the sentence-boundary lookbehind.\<close>

definition is_terminal :: "char \<Rightarrow> bool" where
  "is_terminal c = (c = CHR ''.'' \<or> c = CHR ''!'' \<or> c = CHR ''?'')"

definition apostrophe :: char where
  "apostrophe = CHR 0x27"

definition newline :: char where
  "newline = CHR 0x0A"

text \<open>\<open>s.strip()\<close> and \<open>s.rstrip(chars)\<close>.\<close>

definition py_strip :: "string \<Rightarrow> string" where
  "py_strip s = rev (dropWhile is_space (rev (dropWhile is_space s)))"

definition py_rstrip :: "string \<Rightarrow> string \<Rightarrow> string" where
  "py_rstrip chars s = rev (dropWhile (\<lambda>c. c \<in> set chars) (rev s))"

text \<open>\<open>sep.join(xs)\<close>.\<close>

fun py_join :: "string \<Rightarrow> string list \<Rightarrow> string" where
  "py_join sep [] = []"
| "py_join sep [x] = x"
| "py_join sep (x # y # ys) = x @ sep @ py_join sep (y # ys)"

text \<open>
  The slice \<open>xs[:n]\<close>: \<open>None\<close> keeps the whole list, a negative stop counts from the end.
\<close>

definition py_slice_to :: "'a list \<Rightarrow> int option \<Rightarrow> 'a list" where
  "py_slice_to xs stop =
     (case stop of
        None \<Rightarrow> xs
      | Some n \<Rightarrow> if 0 \<le> n then take (nat n) xs else take (length xs - nat (- n)) xs)"

text \<open>\<open>sub in s\<close> on strings.\<close>

fun py_contains :: "string \<Rightarrow> string \<Rightarrow> bool" where
  "py_contains sub [] = (sub = [])"
| "py_contains sub (c # cs) = (take (length sub) (c # cs) = sub \<or> py_contains sub cs)"

text \<open>\<open>s.endswith(suffix)\<close>.\<close>

definition py_endswith :: "string \<Rightarrow> string \<Rightarrow> bool" where
  "py_endswith s suffix = (length suffix \<le> length s \<and> drop (length s - length suffix) s = suffix)"

text \<open>
  \<open>s.split(sep)\<close> for a non-empty separator: the occurrences of \<open>sep\<close> are found from the
  left and do not overlap; \<open>cur\<close> holds, reversed, the piece being read.
\<close>

function py_split_from :: "string \<Rightarrow> string \<Rightarrow> string \<Rightarrow> string list" where
  "py_split_from sep cur [] = [rev cur]"
| "py_split_from sep cur (c # cs) =
     (if sep \<noteq> [] \<and> take (length sep) (c # cs) = sep
      then rev cur # py_split_from sep [] (drop (length sep) (c # cs))
      else py_split_from sep (c # cur) cs)"
  by pat_completeness auto
termination
  by (relation "measure (\<lambda>(sep, cur, s). length s)") auto

definition py_split :: "string \<Rightarrow> string \<Rightarrow> string list" where
  "py_split sep s = py_split_from sep [] s"

text \<open>\<open>os.path.basename\<close>: what follows the last slash.\<close>

definition basename :: "path \<Rightarrow> string" where
  "basename p = rev (takeWhile (\<lambda>c. c \<noteq> CHR ''/'') (rev p))"

text \<open>
  \<open>re.findall(r'\w+', text)\<close>: the maximal runs of word characters, from the left;
  \<open>cur\<close> holds, reversed, the run being read.
\<close>

fun findall_words_from :: "string \<Rightarrow> string \<Rightarrow> string list" where
  "findall_words_from cur [] = (if cur = [] then [] else [rev cur])"
| "findall_words_from cur (c # cs) =
     (if is_word_char c then findall_words_from (c # cur) cs
      else if cur = [] then findall_words_from [] cs
      else rev cur # findall_words_from [] cs)"

definition findall_words :: "string \<Rightarrow> string list" where
  "findall_words text = findall_words_from [] text"

text \<open>
  \<open>re.split(r'(?<=[.!?])\s+', s)\<close>: a separator is a maximal run of whitespace that comes
  right after one of \<open>.\<close>, \<open>!\<close>, \<open>?\<close>; \<open>cur\<close> holds, reversed, the piece being read, so
  its head is the character the lookbehind inspects.
\<close>

function split_sentences_from :: "string \<Rightarrow> string \<Rightarrow> string list" where
  "split_sentences_from cur [] = [rev cur]"
| "split_sentences_from cur (c # cs) =
     (if is_space c \<and> cur \<noteq> [] \<and> is_terminal (hd cur)
      then rev cur # split_sentences_from [] (dropWhile is_space cs)
      else split_sentences_from (c # cur) cs)"
  by pat_completeness auto
termination
  by (relation "measure (\<lambda>(cur, s). length s)")
     (auto simp: less_Suc_eq_le length_dropWhile_le)

definition split_sentences :: "string \<Rightarrow> string list" where
  "split_sentences s = split_sentences_from [] s"

section \<open>The snippet\<close>

text \<open>
  \<open>get_text_snippet(text, num_sentences, num_words)\<close>; an argument that is \<open>None\<close> in the
  source is \<open>None\<close> here.
\<close>

definition get_text_snippet :: "string \<Rightarrow> int option \<Rightarrow> int option \<Rightarrow> string" where
  "get_text_snippet text num_sentences num_words =
     (case num_words of
        Some n \<Rightarrow> py_join '' '' (py_slice_to (findall_words text) (Some n))
      | None \<Rightarrow> py_join '' '' (py_slice_to (split_sentences (py_strip text)) num_sentences))"

text \<open>
  Two measures for stating bounds on a snippet. The sentences of a string are the non-empty
  pieces the splitter of the source returns on it, stripped as the source strips its input.
  A sentence boundary is a whitespace character right after one of \<open>.\<close>, \<open>!\<close>, \<open>?\<close>; the flag
  tells whether the character before the string is one of these.
\<close>

definition sentence_count :: "string \<Rightarrow> nat" where
  "sentence_count s = length (filter (\<lambda>piece. piece \<noteq> []) (split_sentences (py_strip s)))"

fun boundaries :: "bool \<Rightarrow> string \<Rightarrow> nat" where
  "boundaries after [] = 0"
| "boundaries after (c # cs) =
     (if after \<and> is_space c then 1 else 0) + boundaries (is_terminal c) cs"

section \<open>Errors, log, filesystem and external capabilities\<close>

datatype py_error = IndexError | OSError | PdfError | ApiError

text \<open>One constructor per logging call of the source, with the level it is logged at.\<close>

datatype level = INFO | WARNING | ERROR

datatype log_entry =
    Extract_failed path py_error
  | Skipping_file path
  | Duplicate_report string
  | Deleted_file path
  | Delete_error path py_error
  | Parse_error py_error
  | No_valid_snippets

fun level_of :: "log_entry \<Rightarrow> level" where
  "level_of (Extract_failed p e) = ERROR"
| "level_of (Skipping_file p) = WARNING"
| "level_of (Duplicate_report r) = INFO"
| "level_of (Deleted_file p) = INFO"
| "level_of (Delete_error p e) = ERROR"
| "level_of (Parse_error e) = ERROR"
| "level_of No_valid_snippets = WARNING"

text \<open>
  The state a run acts on: the files that exist, the files whose removal the operating
  system refuses, the log, and the trace of the two effects the claims speak of, the
  arguments of every \<open>os.remove\<close> call and the prompt of every completion request.
\<close>

record world =
  present :: "path set"
  protected :: "path set"
  log :: "log_entry list"
  removals :: "path list"
  completions :: "string list"

text \<open>
  The capabilities the source imports: \<open>glob.glob\<close>, the text of the first page
  (\<open>fitz.open(path)\<close>, \<open>doc[0].get_text()\<close>, any exception of which is \<open>Inl\<close>), and the chat
  completion (the content of its first choice, given the user prompt).
\<close>

record env =
  glob_glob :: "string \<Rightarrow> path list"
  first_page_text :: "path \<Rightarrow> py_error + string"
  chat_completion :: "string \<Rightarrow> py_error + string"

definition logging :: "log_entry \<Rightarrow> world \<Rightarrow> world" where
  "logging entry w = w\<lparr>log := log w @ [entry]\<rparr>"

definition os_path_exists :: "world \<Rightarrow> path \<Rightarrow> bool" where
  "os_path_exists w p = (p \<in> present w)"

text \<open>\<open>os.remove\<close>: the call is recorded; it raises \<open>OSError\<close> on a missing or protected file.\<close>

definition os_remove :: "world \<Rightarrow> path \<Rightarrow> py_error option \<times> world" where
  "os_remove w p =
     (let w1 = w\<lparr>removals := removals w @ [p]\<rparr>
      in if p \<in> present w1 \<and> p \<notin> protected w1
         then (None, w1\<lparr>present := present w1 - {p}\<rparr>)
         else (Some OSError, w1))"

text \<open>\<open>xs[i]\<close> for a non-negative index.\<close>

definition py_index :: "'a list \<Rightarrow> nat \<Rightarrow> py_error + 'a" where
  "py_index xs i = (if i < length xs then Inr (xs ! i) else Inl IndexError)"

text \<open>\<open>d[k] = v\<close> on a dictionary, which keeps its keys in insertion order.\<close>

fun dict_set :: "('k \<times> 'v) list \<Rightarrow> 'k \<Rightarrow> 'v \<Rightarrow> ('k \<times> 'v) list" where
  "dict_set [] k v = [(k, v)]"
| "dict_set ((k', v') # kvs) k v =
     (if k' = k then (k, v) # kvs else (k', v') # dict_set kvs k v)"

section \<open>Extraction and collection\<close>

definition extract_with_pymupdf ::
  "env \<Rightarrow> world \<Rightarrow> path \<Rightarrow> int option \<Rightarrow> int option \<Rightarrow> string list \<times> world" where
  "extract_with_pymupdf e w file_path num_sentences num_words =
     (case first_page_text e file_path of
        Inr text \<Rightarrow> ([get_text_snippet text num_sentences num_words], w)
      | Inl err \<Rightarrow> ([], logging (Extract_failed file_path err) w))"

definition extract_and_store_snippet ::
  "env \<Rightarrow> world \<Rightarrow> path \<Rightarrow> int option \<Rightarrow> int option \<Rightarrow> string list \<times> world" where
  "extract_and_store_snippet e w file_path num_sentences num_words =
     extract_with_pymupdf e w file_path num_sentences num_words"

text \<open>
  The loop over the futures, in the order of submission. Each worker is a function of its
  file alone, so the mapping does not depend on the schedule of the pool; the log is the
  one of the schedule that runs each worker right before its result is read. The worker
  catches every exception itself, so \<open>future.result()\<close> returns a list and the handler
  around it has nothing to catch.
\<close>

fun collect_loop ::
  "env \<Rightarrow> int option \<Rightarrow> int option \<Rightarrow> path list \<Rightarrow> (path \<times> string) list \<times> world
     \<Rightarrow> (path \<times> string) list \<times> world" where
  "collect_loop e num_sentences num_words [] (pdf_snippets, w) = (pdf_snippets, w)"
| "collect_loop e num_sentences num_words (file_path # files) (pdf_snippets, w) =
     (case extract_and_store_snippet e w file_path num_sentences num_words of
        (snippet, w1) \<Rightarrow>
          (case snippet of
             [] \<Rightarrow> collect_loop e num_sentences num_words files
                     (pdf_snippets, logging (Skipping_file file_path) w1)
           | s # rest \<Rightarrow> collect_loop e num_sentences num_words files
                     (dict_set pdf_snippets file_path s, w1)))"

definition collect_snippets ::
  "env \<Rightarrow> world \<Rightarrow> string \<Rightarrow> int option \<Rightarrow> int option \<Rightarrow> (path \<times> string) list \<times> world" where
  "collect_snippets e w file_pattern num_sentences num_words =
     collect_loop e num_sentences num_words
       (filter (\<lambda>file_path. py_endswith file_path ''.pdf'') (glob_glob e file_pattern))
       ([], w)"

section \<open>The duplicate judge\<close>

definition comparison_prompt :: "(path \<times> string) list \<Rightarrow> string" where
  "comparison_prompt pdf_snippets =
     ''Here is a list of text snippets from different PDFs. Find any pairs that appear to be duplicates based on content:''
     @ [newline, newline]
     @ concat (map (\<lambda>(file, snippet).
           ''File '' @ [apostrophe] @ basename file @ [apostrophe] @ '': '' @ snippet @ [newline])
         pdf_snippets)
     @ [newline] @ ''Please list which files are duplicates (e.g., 'File A and File B are duplicates').''"

definition check_duplicates_using_ai ::
  "env \<Rightarrow> world \<Rightarrow> (path \<times> string) list \<Rightarrow> (py_error + string) \<times> world" where
  "check_duplicates_using_ai e w pdf_snippets =
     (let prompt = comparison_prompt pdf_snippets;
          w1 = w\<lparr>completions := completions w @ [prompt]\<rparr>
      in case chat_completion e prompt of
           Inl err \<Rightarrow> (Inl err, w1)
         | Inr content \<Rightarrow> (Inr (py_strip content), w1))"

section \<open>Parsing the report and deleting\<close>

definition delete_file :: "world \<Rightarrow> path \<Rightarrow> world" where
  "delete_file w file_path =
     (case os_remove w file_path of
        (None, w1) \<Rightarrow> logging (Deleted_file file_path) w1
      | (Some err, w1) \<Rightarrow> logging (Delete_error file_path err) w1)"

text \<open>
  The three assignments \<open>parts\<close>, \<open>file1\<close>, \<open>file2\<close> of the \<open>try\<close> block; an index out of
  range is the \<open>IndexError\<close> its handler catches.
\<close>

definition parse_duplicate_line :: "string \<Rightarrow> py_error + (string \<times> string)" where
  "parse_duplicate_line line =
     (let parts = py_split '' and '' line
      in case py_index parts 0 of
           Inl err \<Rightarrow> Inl err
         | Inr part0 \<Rightarrow>
             (case py_index (py_split (''File '' @ [apostrophe]) part0) 1 of
                Inl err \<Rightarrow> Inl err
              | Inr name1 \<Rightarrow>
                  (let file1 = py_rstrip [apostrophe] name1
                   in case py_index parts 1 of
                        Inl err \<Rightarrow> Inl err
                      | Inr part1 \<Rightarrow>
                          (case py_index (py_split (''File '' @ [apostrophe]) part1) 1 of
                             Inl err \<Rightarrow> Inl err
                           | Inr name2 \<Rightarrow>
                               (case py_index (py_split '' '' name2) 0 of
                                  Inl err \<Rightarrow> Inl err
                                | Inr word \<Rightarrow> Inr (file1, py_rstrip [apostrophe] word))))))"

text \<open>\<open>next((path for path in pdf_snippets.keys() if os.path.basename(path) == name), None)\<close>.\<close>

definition find_path :: "(path \<times> string) list \<Rightarrow> string \<Rightarrow> path option" where
  "find_path pdf_snippets name = find (\<lambda>path. basename path = name) (map fst pdf_snippets)"

text \<open>The body of the loop over the lines of the report.\<close>

definition process_report_line :: "(path \<times> string) list \<Rightarrow> world \<Rightarrow> string \<Rightarrow> world" where
  "process_report_line pdf_snippets w line =
     (if py_contains ''are duplicates'' line
      then (case parse_duplicate_line line of
              Inl err \<Rightarrow> logging (Parse_error err) w
            | Inr (file1, file2) \<Rightarrow>
                (let file1_path = find_path pdf_snippets file1;
                     file2_path = find_path pdf_snippets file2
                 in case file2_path of
                      None \<Rightarrow> w
                    | Some p \<Rightarrow> if p \<noteq> [] \<and> os_path_exists w p then delete_file w p else w))
      else w)"

section \<open>The run\<close>

text \<open>
  The result is the exception that leaves the function, if any, and the state reached.
\<close>

definition process_pdfs_for_duplicates ::
  "env \<Rightarrow> world \<Rightarrow> string \<Rightarrow> int option \<Rightarrow> int option \<Rightarrow> int \<Rightarrow> bool
     \<Rightarrow> py_error option \<times> world" where
  "process_pdfs_for_duplicates e w file_pattern num_sentences num_words sleep delete_dupes =
     (case collect_snippets e w file_pattern num_sentences num_words of
        (pdf_snippets, w1) \<Rightarrow>
          if pdf_snippets \<noteq> []
          then (case check_duplicates_using_ai e w1 pdf_snippets of
                  (Inl err, w2) \<Rightarrow> (Some err, w2)
                | (Inr duplicate_report, w2) \<Rightarrow>
                    (let w3 = logging (Duplicate_report duplicate_report) w2
                     in if delete_dupes
                        then (None, foldl (process_report_line pdf_snippets) w3
                                      (py_split [newline] duplicate_report))
                        else (None, w3)))
          else (None, logging No_valid_snippets w1))"

section \<open>Sample inputs\<close>

text \<open>
  A directory listing, the files whose first page cannot be read, the text every other first
  page has, and the answer of the model; and the state in which exactly the listed files exist.
\<close>

definition sample_env :: "path list \<Rightarrow> path list \<Rightarrow> string \<Rightarrow> string \<Rightarrow> env" where
  "sample_env files unreadable page answer =
     \<lparr>glob_glob = (\<lambda>pattern. files),
      first_page_text = (\<lambda>p. if p \<in> set unreadable then Inl PdfError else Inr page),
      chat_completion = (\<lambda>prompt. Inr answer)\<rparr>"

definition sample_world :: "path list \<Rightarrow> world" where
  "sample_world files =
     \<lparr>present = set files, protected = {}, log = [], removals = [], completions = []\<rparr>"

text \<open>Answers of the model used in the examples below.\<close>

definition quoted_report :: string where
  "quoted_report = ''File 'A.pdf' and File 'B.pdf' are duplicates.''"

definition unquoted_report :: string where
  "unquoted_report = ''File A.pdf and File B.pdf are duplicates.''"

definition mutual_report :: string where
  "mutual_report = ''File 'A.pdf' and File 'B.pdf' are duplicates.''
     @ [newline] @ ''File 'B.pdf' and File 'A.pdf' are duplicates.''"

definition repeated_report :: string where
  "repeated_report = ''File 'A.pdf' and File 'B.pdf' are duplicates.''
     @ [newline] @ ''File 'C.pdf' and File 'B.pdf' are duplicates.''"

definition unknown_first_report :: string where
  "unknown_first_report = ''File 'X.pdf' and File 'B.pdf' are duplicates.''"

definition unknown_second_report :: string where
  "unknown_second_report = ''File 'A.pdf' and File 'X.pdf' are duplicates.''"

section \<open>Words and sentences of a snippet\<close>

lemma space_not_terminal: "is_space c \<Longrightarrow> \<not> is_terminal c"
  by (auto simp: is_space_def is_terminal_def)

lemma space_not_word: "\<not> is_word_char CHR '' ''"
  by (simp add: is_word_char_def)

lemma findall_words_from_run:
  "\<forall>c \<in> set w. is_word_char c \<Longrightarrow>
   findall_words_from cur (w @ s) = findall_words_from (rev w @ cur) s"
  by (induction w arbitrary: cur) simp_all

lemma findall_words_from_wellformed:
  "x \<in> set (findall_words_from cur s) \<Longrightarrow> \<forall>c \<in> set cur. is_word_char c \<Longrightarrow>
   x \<noteq> [] \<and> (\<forall>c \<in> set x. is_word_char c)"
proof (induction cur s rule: findall_words_from.induct)
  case (1 cur)
  then show ?case by (cases "cur = []") simp_all
next
  case (2 cur c cs)
  show ?case
  proof (cases "is_word_char c")
    case True
    with "2.prems"(1) have x: "x \<in> set (findall_words_from (c # cur) cs)" by simp
    from True "2.prems"(2) have "\<forall>d \<in> set (c # cur). is_word_char d" by simp
    from "2.IH"(1) [OF True x this] show ?thesis .
  next
    case False
    show ?thesis
    proof (cases "cur = []")
      case True
      with False "2.prems"(1) have "x \<in> set (findall_words_from [] cs)" by simp
      from "2.IH"(2) [OF False True this] show ?thesis by simp
    next
      case nonempty: False
      with False "2.prems"(1) have "x = rev cur \<or> x \<in> set (findall_words_from [] cs)"
        by simp
      then show ?thesis
      proof
        assume "x = rev cur"
        with nonempty "2.prems"(2) show ?thesis by simp
      next
        assume "x \<in> set (findall_words_from [] cs)"
        from "2.IH"(3) [OF False nonempty this] show ?thesis by simp
      qed
    qed
  qed
qed

lemma findall_words_join:
  "\<forall>x \<in> set ws. x \<noteq> [] \<and> (\<forall>c \<in> set x. is_word_char c) \<Longrightarrow>
   findall_words_from [] (py_join '' '' ws) = ws"
proof (induction "'' ''" ws rule: py_join.induct)
  case 1
  show ?case by simp
next
  case (2 x)
  then have "findall_words_from [] (x @ []) = findall_words_from (rev x @ []) []"
    by (intro findall_words_from_run) simp
  with 2 show ?case by simp
next
  case (3 x y ys)
  from 3(2) have "findall_words_from [] (x @ '' '' @ py_join '' '' (y # ys))
      = findall_words_from (rev x @ []) ('' '' @ py_join '' '' (y # ys))"
    by (intro findall_words_from_run) simp
  with 3 show ?case by (simp add: space_not_word)
qed

lemma findall_words_snippet:
  "findall_words (get_text_snippet text ns (Some n)) = py_slice_to (findall_words text) (Some n)"
proof -
  have "\<forall>x \<in> set (py_slice_to (findall_words text) (Some n)).
          x \<noteq> [] \<and> (\<forall>c \<in> set x. is_word_char c)"
  proof
    fix x assume "x \<in> set (py_slice_to (findall_words text) (Some n))"
    then have "x \<in> set (findall_words_from [] text)"
      by (auto simp: py_slice_to_def findall_words_def split: if_splits dest: in_set_takeD)
    from findall_words_from_wellformed [OF this] show "x \<noteq> [] \<and> (\<forall>c \<in> set x. is_word_char c)"
      by simp
  qed
  from findall_words_join [OF this] show ?thesis
    by (simp add: get_text_snippet_def findall_words_def)
qed

lemma boundaries_append:
  "boundaries b (xs @ ys) =
     boundaries b xs + boundaries (if xs = [] then b else is_terminal (last xs)) ys"
  by (induction xs arbitrary: b) simp_all

lemma boundaries_dropWhile:
  "boundaries False (dropWhile is_space s) = boundaries False s"
  by (induction s) (simp_all add: space_not_terminal)

lemma length_split_sentences_from:
  "length (split_sentences_from cur s) = 1 + boundaries (cur \<noteq> [] \<and> is_terminal (hd cur)) s"
  by (induction cur s rule: split_sentences_from.induct)
     (auto simp: boundaries_dropWhile space_not_terminal)

lemma split_sentences_from_pieces:
  "p \<in> set (split_sentences_from cur s) \<Longrightarrow> boundaries False (rev cur) = 0 \<Longrightarrow>
   boundaries False p = 0"
proof (induction cur s rule: split_sentences_from.induct)
  case (1 cur)
  then show ?case by simp
next
  case (2 cur c cs)
  show ?case
  proof (cases "is_space c \<and> cur \<noteq> [] \<and> is_terminal (hd cur)")
    case True
    with 2 show ?thesis by auto
  next
    case False
    then have "boundaries False (rev (c # cur)) = 0"
      using 2(4) by (auto simp: boundaries_append last_rev)
    with 2 False show ?thesis by auto
  qed
qed

lemma boundaries_join:
  "\<forall>p \<in> set ps. boundaries False p = 0 \<Longrightarrow>
   boundaries False (py_join '' '' ps) \<le> length ps - 1"
proof (induction "'' ''" ps rule: py_join.induct)
  case 1
  show ?case by simp
next
  case (2 x)
  then show ?case by simp
next
  case (3 x y ys)
  then have "boundaries False (py_join '' '' (y # ys)) \<le> length (y # ys) - 1" by simp
  moreover have "is_terminal CHR '' '' = False" by (simp add: is_terminal_def)
  ultimately show ?case using 3(2) by (simp add: boundaries_append)
qed

lemma boundaries_prefix: "boundaries b xs \<le> boundaries b (xs @ ys)"
  by (simp add: boundaries_append)

lemma rstrip_prefix:
  "rev (dropWhile P (rev t)) @ rev (takeWhile P (rev t)) = t"
proof -
  have "rev (takeWhile P (rev t) @ dropWhile P (rev t)) = t" by simp
  then show ?thesis by (simp only: rev_append)
qed

lemma boundaries_strip: "boundaries False (py_strip s) \<le> boundaries False s"
proof -
  let ?t = "dropWhile is_space s"
  have "boundaries False (rev (dropWhile is_space (rev ?t)))
      \<le> boundaries False (rev (dropWhile is_space (rev ?t)) @ rev (takeWhile is_space (rev ?t)))"
    by (rule boundaries_prefix)
  then have "boundaries False (py_strip s) \<le> boundaries False ?t"
    by (simp only: rstrip_prefix py_strip_def)
  then show ?thesis by (simp only: boundaries_dropWhile)
qed

lemma sentence_count_snippet:
  assumes "0 \<le> n"
  shows "sentence_count (get_text_snippet text (Some n) None) \<le> nat n"
proof -
  define ps where "ps = take (nat n) (split_sentences (py_strip text))"
  define snippet where "snippet = py_join '' '' ps"
  have snip: "get_text_snippet text (Some n) None = snippet"
    using assms by (simp add: get_text_snippet_def py_slice_to_def ps_def snippet_def)
  have short: "length ps \<le> nat n" by (simp add: ps_def)
  show ?thesis
  proof (cases "ps = []")
    case True
    then have "snippet = []" by (simp add: snippet_def)
    moreover have "sentence_count [] = 0"
      by (simp add: sentence_count_def py_strip_def split_sentences_def)
    ultimately show ?thesis using snip by simp
  next
    case False
    then have pos: "0 < length ps" by simp
    have "\<forall>p \<in> set ps. boundaries False p = 0"
    proof
      fix p assume "p \<in> set ps"
      then have "p \<in> set (split_sentences_from [] (py_strip text))"
        by (auto simp: ps_def split_sentences_def dest: in_set_takeD)
      from split_sentences_from_pieces [OF this] show "boundaries False p = 0" by simp
    qed
    from boundaries_join [OF this]
    have "boundaries False snippet \<le> length ps - 1" by (simp only: snippet_def)
    with boundaries_strip [of snippet]
    have "boundaries False (py_strip snippet) \<le> length ps - 1" by (rule order_trans)
    moreover have "length (split_sentences (py_strip snippet))
        = 1 + boundaries False (py_strip snippet)"
      by (simp add: split_sentences_def length_split_sentences_from)
    ultimately have "length (split_sentences (py_strip snippet)) \<le> length ps"
      using pos by linarith
    moreover have "sentence_count snippet \<le> length (split_sentences (py_strip snippet))"
      unfolding sentence_count_def by (rule length_filter_le)
    ultimately show ?thesis using short snip by simp
  qed
qed

lemma snippet_of_empty: "get_text_snippet [] ns nw = []"
proof (cases nw)
  case (Some n)
  then show ?thesis by (simp add: get_text_snippet_def findall_words_def py_slice_to_def)
next
  case None
  have sp: "split_sentences (py_strip []) = [[]]"
    by (simp add: py_strip_def split_sentences_def)
  show ?thesis
  proof (cases ns)
    case None
    with \<open>nw = None\<close> sp show ?thesis by (simp add: get_text_snippet_def py_slice_to_def)
  next
    case (Some n)
    have "take (nat n) [[]::string] = [] \<or> take (nat n) [[]::string] = [[]]"
      by (cases "nat n") simp_all
    with \<open>nw = None\<close> Some sp show ?thesis
      by (auto simp: get_text_snippet_def py_slice_to_def)
  qed
qed

lemma py_join_empty: "py_join sep (x # xs) = [] \<Longrightarrow> x = []"
  by (cases xs) simp_all

lemma split_sentences_from_hd:
  "cur \<noteq> [] \<Longrightarrow> hd (split_sentences_from cur s) \<noteq> []"
  by (induction cur s rule: split_sentences_from.induct) simp_all

lemma split_sentences_cases:
  "split_sentences [] = [[]]"
  "\<exists>p ps. split_sentences (c # cs) = p # ps \<and> p \<noteq> []"
proof -
  show "split_sentences [] = [[]]" by (simp add: split_sentences_def)
  have eq: "split_sentences (c # cs) = split_sentences_from [c] cs"
    by (simp add: split_sentences_def)
  have "length (split_sentences_from [c] cs) = 1 + boundaries (is_terminal c) cs"
    by (simp add: length_split_sentences_from)
  then obtain p ps where ps: "split_sentences_from [c] cs = p # ps"
    by (cases "split_sentences_from [c] cs") simp_all
  with split_sentences_from_hd [of "[c]" cs] have "p \<noteq> []" by simp
  with eq ps show "\<exists>p ps. split_sentences (c # cs) = p # ps \<and> p \<noteq> []" by simp
qed

lemma word_snippet_empty:
  assumes "0 \<le> n"
  shows "get_text_snippet t ns (Some n) = [] \<longleftrightarrow> n = 0 \<or> findall_words t = []"
proof
  assume "get_text_snippet t ns (Some n) = []"
  then have "findall_words (get_text_snippet t ns (Some n)) = []"
    by (simp add: findall_words_def)
  with findall_words_snippet [of t ns n] assms have "take (nat n) (findall_words t) = []"
    by (simp add: py_slice_to_def)
  with assms show "n = 0 \<or> findall_words t = []" by auto
next
  assume "n = 0 \<or> findall_words t = []"
  then have "take (nat n) (findall_words t) = []" by auto
  moreover from assms have "get_text_snippet t ns (Some n)
      = py_join '' '' (take (nat n) (findall_words t))"
    by (simp add: get_text_snippet_def py_slice_to_def)
  ultimately show "get_text_snippet t ns (Some n) = []" by (simp only: py_join.simps)
qed

lemma sentence_snippet_empty:
  assumes "0 \<le> n"
  shows "get_text_snippet t (Some n) None = [] \<longleftrightarrow> n = 0 \<or> py_strip t = []"
proof (cases "n = 0")
  case True
  then show ?thesis by (simp add: get_text_snippet_def py_slice_to_def)
next
  case False
  with assms obtain k where k: "nat n = Suc k" by (cases "nat n") auto
  have snip: "get_text_snippet t (Some n) None
      = py_join '' '' (take (Suc k) (split_sentences (py_strip t)))"
    using assms k by (simp add: get_text_snippet_def py_slice_to_def)
  show ?thesis
  proof (cases "py_strip t")
    case Nil
    with snip False show ?thesis by (simp add: split_sentences_cases(1))
  next
    case (Cons c cs)
    from split_sentences_cases(2) [of c cs] obtain p ps
      where ps: "split_sentences (c # cs) = p # ps" and p: "p \<noteq> []" by blast
    from snip Cons ps have "get_text_snippet t (Some n) None = py_join '' '' (p # take k ps)"
      by simp
    with p py_join_empty [of "'' ''" p "take k ps"]
    have "get_text_snippet t (Some n) None \<noteq> []" by auto
    with False Cons show ?thesis by simp
  qed
qed

section \<open>Frame and bookkeeping lemmas\<close>

lemma logging_simps:
  "present (logging x w) = present w" "protected (logging x w) = protected w"
  "removals (logging x w) = removals w" "completions (logging x w) = completions w"
  "log (logging x w) = log w @ [x]"
  by (simp_all add: logging_def)

lemma extract_frame:
  assumes "extract_and_store_snippet e w p ns nw = (snippet, w1)"
  shows "present w1 = present w \<and> protected w1 = protected w
    \<and> removals w1 = removals w \<and> completions w1 = completions w"
  using assms
  by (auto simp: extract_and_store_snippet_def extract_with_pymupdf_def logging_simps
      split: sum.splits)

lemma collect_loop_frame:
  "collect_loop e ns nw files (acc, w) = (snips, w') \<Longrightarrow>
   present w' = present w \<and> protected w' = protected w
    \<and> removals w' = removals w \<and> completions w' = completions w"
proof (induction files arbitrary: acc w)
  case Nil
  then show ?case by simp
next
  case (Cons f files)
  obtain snippet w1 where ex: "extract_and_store_snippet e w f ns nw = (snippet, w1)"
    by (cases "extract_and_store_snippet e w f ns nw")
  note fr = extract_frame [OF ex]
  show ?case
  proof (cases snippet)
    case Nil
    with Cons.prems ex
    have "collect_loop e ns nw files (acc, logging (Skipping_file f) w1) = (snips, w')"
      by simp
    from Cons.IH [OF this] fr show ?thesis by (simp add: logging_simps)
  next
    case (Cons s rest)
    with Cons.prems ex
    have "collect_loop e ns nw files (dict_set acc f s, w1) = (snips, w')"
      by simp
    from Cons.IH [OF this] fr show ?thesis by simp
  qed
qed

lemma set_dict_set: "set (dict_set kvs k v) \<subseteq> insert (k, v) (set kvs)"
  by (induction kvs) (auto split: if_splits)

lemma keys_dict_set: "fst ` set (dict_set kvs k v) = insert k (fst ` set kvs)"
proof (induction kvs)
  case Nil
  show ?case by simp
next
  case (Cons x kvs)
  obtain a b where x: "x = (a, b)" by (cases x)
  show ?case using Cons.IH by (cases "a = k") (simp_all add: x insert_commute)
qed

lemma extract_cases:
  "extract_and_store_snippet e w p ns nw = (snippet, w1) \<Longrightarrow>
   (\<exists>text. first_page_text e p = Inr text \<and> snippet = [get_text_snippet text ns nw] \<and> w1 = w)
   \<or> (\<exists>err. first_page_text e p = Inl err \<and> snippet = [] \<and> w1 = logging (Extract_failed p err) w)"
  by (auto simp: extract_and_store_snippet_def extract_with_pymupdf_def split: sum.splits)

lemma collect_loop_entries:
  "collect_loop e ns nw files (acc, w) = (snips, w') \<Longrightarrow> (k, v) \<in> set snips \<Longrightarrow>
   (k, v) \<in> set acc
   \<or> (k \<in> set files \<and> (\<exists>text. first_page_text e k = Inr text \<and> v = get_text_snippet text ns nw))"
proof (induction files arbitrary: acc w)
  case Nil
  then show ?case by simp
next
  case (Cons f files)
  obtain snippet w1 where ex: "extract_and_store_snippet e w f ns nw = (snippet, w1)"
    by (cases "extract_and_store_snippet e w f ns nw")
  from extract_cases [OF ex] show ?case
  proof
    assume "\<exists>text. first_page_text e f = Inr text \<and> snippet = [get_text_snippet text ns nw] \<and> w1 = w"
    then obtain page where t: "first_page_text e f = Inr page"
      and s: "snippet = [get_text_snippet page ns nw]" by blast
    from Cons.prems(1) ex s
    have "collect_loop e ns nw files (dict_set acc f (get_text_snippet page ns nw), w1) = (snips, w')"
      by simp
    from Cons.IH [OF this Cons.prems(2)] t set_dict_set [of acc f "get_text_snippet page ns nw"]
    show ?thesis by auto
  next
    assume "\<exists>err. first_page_text e f = Inl err \<and> snippet = [] \<and> w1 = logging (Extract_failed f err) w"
    then have s: "snippet = []" by blast
    from Cons.prems(1) ex s
    have "collect_loop e ns nw files (acc, logging (Skipping_file f) w1) = (snips, w')"
      by simp
    from Cons.IH [OF this Cons.prems(2)] show ?thesis by auto
  qed
qed

lemma collect_loop_failed:
  "collect_loop e ns nw files (acc, w) = (snips, w') \<Longrightarrow> first_page_text e p = Inl err \<Longrightarrow>
   p \<notin> fst ` set acc \<Longrightarrow> p \<notin> fst ` set snips"
proof (induction files arbitrary: acc w)
  case Nil
  then show ?case by simp
next
  case (Cons f files)
  obtain snippet w1 where ex: "extract_and_store_snippet e w f ns nw = (snippet, w1)"
    by (cases "extract_and_store_snippet e w f ns nw")
  from extract_cases [OF ex] show ?case
  proof
    assume "\<exists>text. first_page_text e f = Inr text \<and> snippet = [get_text_snippet text ns nw] \<and> w1 = w"
    then obtain page where t: "first_page_text e f = Inr page"
      and s: "snippet = [get_text_snippet page ns nw]" by blast
    from t Cons.prems(2) have ne: "p \<noteq> f" by auto
    from Cons.prems(1) ex s
    have run: "collect_loop e ns nw files (dict_set acc f (get_text_snippet page ns nw), w1) = (snips, w')"
      by simp
    from ne Cons.prems(3) have "p \<notin> fst ` set (dict_set acc f (get_text_snippet page ns nw))"
      by (simp add: keys_dict_set)
    from Cons.IH [OF run Cons.prems(2) this] show ?thesis .
  next
    assume "\<exists>err. first_page_text e f = Inl err \<and> snippet = [] \<and> w1 = logging (Extract_failed f err) w"
    then have s: "snippet = []" by blast
    from Cons.prems(1) ex s
    have "collect_loop e ns nw files (acc, logging (Skipping_file f) w1) = (snips, w')"
      by simp
    from Cons.IH [OF this Cons.prems(2,3)] show ?thesis .
  qed
qed

lemma delete_file_present:
  "present (delete_file w p) = (if p \<notin> protected w then present w - {p} else present w)"
  by (auto simp: delete_file_def os_remove_def Let_def logging_simps)

lemma delete_file_frame:
  "protected (delete_file w p) = protected w" "completions (delete_file w p) = completions w"
  "removals (delete_file w p) = removals w @ [p]"
  by (simp_all add: delete_file_def os_remove_def Let_def logging_simps)

lemma delete_file_log:
  "log (delete_file w p) =
     log w @ [if p \<in> present w \<and> p \<notin> protected w then Deleted_file p else Delete_error p OSError]"
  by (simp add: delete_file_def os_remove_def Let_def logging_simps)

lemma find_path_Some:
  "find_path snips name = Some p \<Longrightarrow> p \<in> fst ` set snips \<and> basename p = name"
  by (auto simp: find_path_def find_Some_iff)

lemma line_step_cases:
  "process_report_line snips w line = w
   \<or> (\<exists>err. process_report_line snips w line = logging (Parse_error err) w)
   \<or> (\<exists>f1 f2 p. py_contains ''are duplicates'' line \<and> parse_duplicate_line line = Inr (f1, f2)
        \<and> find_path snips f2 = Some p \<and> p \<noteq> [] \<and> p \<in> present w
        \<and> process_report_line snips w line = delete_file w p)"
  by (auto simp: process_report_line_def os_path_exists_def Let_def
      split: sum.splits option.splits)

lemma line_step_resolved:
  "py_contains ''are duplicates'' line \<Longrightarrow> parse_duplicate_line line = Inr (f1, f2) \<Longrightarrow>
   find_path snips f2 = Some p \<Longrightarrow>
   process_report_line snips w line = (if p \<noteq> [] \<and> p \<in> present w then delete_file w p else w)"
  by (simp add: process_report_line_def os_path_exists_def)

lemma line_step_frame:
  "protected (process_report_line snips w line) = protected w"
  "completions (process_report_line snips w line) = completions w"
  "present (process_report_line snips w line) \<subseteq> present w"
  using line_step_cases [of snips w line]
  by (auto simp: logging_simps delete_file_frame delete_file_present split: if_splits)

lemma line_step_removals:
  "removals (process_report_line snips w line) = removals w
   \<or> (\<exists>p \<in> fst ` set snips. removals (process_report_line snips w line) = removals w @ [p])"
proof -
  consider "process_report_line snips w line = w"
    | err where "process_report_line snips w line = logging (Parse_error err) w"
    | f2 p where "find_path snips f2 = Some p" "process_report_line snips w line = delete_file w p"
    using line_step_cases [of snips w line] by blast
  then show ?thesis
  proof cases
    case 1
    then show ?thesis by simp
  next
    case 2
    then show ?thesis by (simp add: logging_simps)
  next
    case 3
    from find_path_Some [OF 3(1)] have "p \<in> fst ` set snips" by simp
    with 3(2) show ?thesis by (simp add: delete_file_frame)
  qed
qed

lemma line_step_traced:
  "p \<in> present w \<Longrightarrow> p \<notin> present (process_report_line snips w line) \<Longrightarrow>
   p \<in> set (removals (process_report_line snips w line))"
  using line_step_cases [of snips w line]
  by (auto simp: logging_simps delete_file_frame delete_file_present split: if_splits)

lemma report_frame:
  "protected (foldl (process_report_line snips) w lines) = protected w
   \<and> completions (foldl (process_report_line snips) w lines) = completions w
   \<and> present (foldl (process_report_line snips) w lines) \<subseteq> present w
   \<and> set (removals w) \<subseteq> set (removals (foldl (process_report_line snips) w lines))"
proof (induction lines arbitrary: w)
  case Nil
  show ?case by simp
next
  case (Cons l ls)
  have "set (removals w) \<subseteq> set (removals (process_report_line snips w l))"
    using line_step_removals [of snips w l] by auto
  with Cons.IH [of "process_report_line snips w l"] line_step_frame [of snips w l]
  show ?case by auto
qed

lemma report_removals:
  "set (removals (foldl (process_report_line snips) w lines)) \<subseteq> set (removals w) \<union> fst ` set snips"
proof (induction lines arbitrary: w)
  case Nil
  show ?case by simp
next
  case (Cons l ls)
  have "set (removals (process_report_line snips w l)) \<subseteq> set (removals w) \<union> fst ` set snips"
  proof -
    from line_step_removals [of snips w l]
    consider "removals (process_report_line snips w l) = removals w"
      | p where "p \<in> fst ` set snips" "removals (process_report_line snips w l) = removals w @ [p]"
      by blast
    then show ?thesis
    proof cases
      case 1
      then show ?thesis by simp
    next
      case 2
      then show ?thesis by simp
    qed
  qed
  with Cons.IH [of "process_report_line snips w l"] show ?case by auto
qed

lemma report_traced:
  "p \<in> present w \<Longrightarrow> p \<notin> present (foldl (process_report_line snips) w lines) \<Longrightarrow>
   p \<in> set (removals (foldl (process_report_line snips) w lines))"
proof (induction lines arbitrary: w)
  case Nil
  then show ?case by simp
next
  case (Cons l ls)
  show ?case
  proof (cases "p \<in> present (process_report_line snips w l)")
    case True
    from Cons.IH [OF True] Cons.prems(2) show ?thesis by simp
  next
    case False
    from line_step_traced [OF Cons.prems(1) False]
      report_frame [of snips "process_report_line snips w l" ls]
    show ?thesis by auto
  qed
qed

lemma report_gone:
  assumes "line \<in> set lines" "py_contains ''are duplicates'' line"
    "parse_duplicate_line line = Inr (f1, f2)" "find_path snips f2 = Some p"
    "p \<noteq> []" "p \<notin> protected w"
  shows "p \<notin> present (foldl (process_report_line snips) w lines)"
  using assms(1,6)
proof (induction lines arbitrary: w)
  case Nil
  then show ?case by simp
next
  case (Cons l ls)
  let ?w = "process_report_line snips w l"
  show ?case
  proof (cases "line = l")
    case True
    have "p \<notin> present ?w"
      using line_step_resolved [OF assms(2,3,4), of w] assms(5) Cons.prems(2) True
      by (auto simp: delete_file_present)
    with report_frame [of snips ?w ls] show ?thesis by auto
  next
    case False
    with Cons.prems(1) have "line \<in> set ls" by simp
    moreover have "p \<notin> protected ?w" using Cons.prems(2) by (simp add: line_step_frame)
    ultimately show ?thesis using Cons.IH [of ?w] by simp
  qed
qed

lemma report_kept:
  assumes "p \<in> present w"
    and "\<forall>l \<in> set lines. \<forall>g1 g2. py_contains ''are duplicates'' l \<and> parse_duplicate_line l = Inr (g1, g2)
           \<longrightarrow> find_path snips g2 \<noteq> Some p"
  shows "p \<in> present (foldl (process_report_line snips) w lines)"
  using assms
proof (induction lines arbitrary: w)
  case Nil
  then show ?case by simp
next
  case (Cons l ls)
  have "p \<in> present (process_report_line snips w l)"
    using line_step_cases [of snips w l] Cons.prems
    by (auto simp: logging_simps delete_file_present split: if_splits)
  with Cons.IH [of "process_report_line snips w l"] Cons.prems(2) show ?case by simp
qed

lemma check_duplicates_frame:
  "check_duplicates_using_ai e w snips = (r, w') \<Longrightarrow>
   present w' = present w \<and> protected w' = protected w \<and> removals w' = removals w
   \<and> log w' = log w \<and> completions w' = completions w @ [comparison_prompt snips]"
  by (auto simp: check_duplicates_using_ai_def Let_def split: sum.splits)

lemma collect_snippets_frame:
  "collect_snippets e w pat ns nw = (snips, w') \<Longrightarrow>
   present w' = present w \<and> protected w' = protected w
    \<and> removals w' = removals w \<and> completions w' = completions w"
  unfolding collect_snippets_def by (rule collect_loop_frame)

lemma process_run_cases:
  assumes "collect_snippets e w pat ns nw = (snips, w1)"
  shows "(snips = [] \<and> process_pdfs_for_duplicates e w pat ns nw sl dd = (None, logging No_valid_snippets w1))
   \<or> (snips \<noteq> [] \<and> (\<exists>err w2. check_duplicates_using_ai e w1 snips = (Inl err, w2)
          \<and> process_pdfs_for_duplicates e w pat ns nw sl dd = (Some err, w2)))
   \<or> (snips \<noteq> [] \<and> (\<exists>report w2. check_duplicates_using_ai e w1 snips = (Inr report, w2)
          \<and> process_pdfs_for_duplicates e w pat ns nw sl dd =
              (None, if dd then foldl (process_report_line snips) (logging (Duplicate_report report) w2)
                                (py_split [newline] report)
                     else logging (Duplicate_report report) w2)))"
proof (cases "check_duplicates_using_ai e w1 snips")
  case (Pair r w2)
  then show ?thesis using assms
    by (cases r) (auto simp: process_pdfs_for_duplicates_def Let_def)
qed

lemma collect_loop_log_mono:
  "collect_loop e ns nw files (acc, w) = (snips, w') \<Longrightarrow> set (log w) \<subseteq> set (log w')"
proof (induction files arbitrary: acc w)
  case Nil
  then show ?case by simp
next
  case (Cons f files)
  obtain snippet w1 where ex: "extract_and_store_snippet e w f ns nw = (snippet, w1)"
    by (cases "extract_and_store_snippet e w f ns nw")
  from extract_cases [OF ex] have w1: "set (log w) \<subseteq> set (log w1)"
    by (auto simp: logging_simps)
  show ?case
  proof (cases snippet)
    case Nil
    with Cons.prems ex
    have "collect_loop e ns nw files (acc, logging (Skipping_file f) w1) = (snips, w')"
      by simp
    from Cons.IH [OF this] w1 show ?thesis by (auto simp: logging_simps)
  next
    case (Cons s rest)
    with Cons.prems ex
    have "collect_loop e ns nw files (dict_set acc f s, w1) = (snips, w')"
      by simp
    from Cons.IH [OF this] w1 show ?thesis by auto
  qed
qed

lemma collect_loop_failed_logged:
  "collect_loop e ns nw files (acc, w) = (snips, w') \<Longrightarrow> p \<in> set files \<Longrightarrow>
   first_page_text e p = Inl err \<Longrightarrow>
   Extract_failed p err \<in> set (log w') \<and> Skipping_file p \<in> set (log w')"
proof (induction files arbitrary: acc w)
  case Nil
  then show ?case by simp
next
  case (Cons f files)
  obtain snippet w1 where ex: "extract_and_store_snippet e w f ns nw = (snippet, w1)"
    by (cases "extract_and_store_snippet e w f ns nw")
  show ?case
  proof (cases "p = f")
    case True
    with extract_cases [OF ex] Cons.prems(3)
    have s: "snippet = []" and w1: "w1 = logging (Extract_failed p err) w" by auto
    from Cons.prems(1) ex s True
    have "collect_loop e ns nw files (acc, logging (Skipping_file p) w1) = (snips, w')"
      by simp
    from collect_loop_log_mono [OF this] w1 show ?thesis by (auto simp: logging_simps)
  next
    case False
    with Cons.prems(2) have mem: "p \<in> set files" by simp
    show ?thesis
    proof (cases snippet)
      case Nil
      with Cons.prems(1) ex
      have "collect_loop e ns nw files (acc, logging (Skipping_file f) w1) = (snips, w')"
        by simp
      from Cons.IH [OF this mem Cons.prems(3)] show ?thesis .
    next
      case (Cons s rest)
      with Cons.prems(1) ex
      have "collect_loop e ns nw files (dict_set acc f s, w1) = (snips, w')"
        by simp
      from Cons.IH [OF this mem Cons.prems(3)] show ?thesis .
    qed
  qed
qed

lemma collect_snippets_keys:
  assumes "collect_snippets e w pat ns nw = (snips, w')" "p \<in> fst ` set snips"
  shows "p \<in> set (glob_glob e pat) \<and> py_endswith p ''.pdf'' \<and> p \<noteq> []"
proof -
  from assms(2) obtain v where "(p, v) \<in> set snips" by auto
  from collect_loop_entries [OF assms(1) [unfolded collect_snippets_def] this]
  have "p \<in> set (glob_glob e pat) \<and> py_endswith p ''.pdf''" by auto
  then show ?thesis by (auto simp: py_endswith_def)
qed

lemma report_attempted:
  assumes "line \<in> set lines" "py_contains ''are duplicates'' line"
    "parse_duplicate_line line = Inr (f1, f2)" "find_path snips f2 = Some p"
    "p \<noteq> []" "p \<in> present w"
  shows "p \<in> set (removals (foldl (process_report_line snips) w lines))"
  using assms(1,6)
proof (induction lines arbitrary: w)
  case Nil
  then show ?case by simp
next
  case (Cons l ls)
  let ?w = "process_report_line snips w l"
  note mono = report_frame [of snips ?w ls]
  show ?case
  proof (cases "p \<in> present ?w")
    case True
    show ?thesis
    proof (cases "line = l")
      case same: True
      from line_step_resolved [OF assms(2,3,4), of w] assms(5) Cons.prems(2) same
      have "removals ?w = removals w @ [p]" by (simp add: delete_file_frame)
      with mono show ?thesis by auto
    next
      case False
      with Cons.prems(1) have "line \<in> set ls" by simp
      from Cons.IH [OF this True] show ?thesis by simp
    qed
  next
    case False
    from line_step_traced [OF Cons.prems(2) False] mono show ?thesis by auto
  qed
qed

lemma check_duplicates_answer:
  "chat_completion e (comparison_prompt snips) = Inr answer \<Longrightarrow>
   check_duplicates_using_ai e w snips
     = (Inr (py_strip answer), w\<lparr>completions := completions w @ [comparison_prompt snips]\<rparr>)"
  by (simp add: check_duplicates_using_ai_def Let_def)

lemma find_path_nonempty: "find_path snips name = Some p \<Longrightarrow> snips \<noteq> []"
  by (auto simp: find_path_def)

lemma find_path_exists:
  "a \<in> fst ` set snips \<Longrightarrow> basename a = name \<Longrightarrow>
   \<exists>p. find_path snips name = Some p \<and> basename p = name \<and> p \<in> fst ` set snips"
proof -
  assume a: "a \<in> fst ` set snips" "basename a = name"
  then have "find_path snips name \<noteq> None"
    by (auto simp: find_path_def find_None_iff)
  then obtain p where "find_path snips name = Some p" by auto
  with find_path_Some [OF this] show ?thesis by simp
qed

lemma run_with_answer:
  assumes c: "collect_snippets e w pat ns nw = (snips, w1)"
    and nonempty: "snips \<noteq> []"
    and a: "chat_completion e (comparison_prompt snips) = Inr answer"
  shows "\<exists>w3. process_pdfs_for_duplicates e w pat ns nw sl True
           = (None, foldl (process_report_line snips) w3 (py_split [newline] (py_strip answer)))
         \<and> present w3 = present w \<and> protected w3 = protected w \<and> removals w3 = removals w"
proof -
  let ?w2 = "w1\<lparr>completions := completions w1 @ [comparison_prompt snips]\<rparr>"
  let ?w3 = "logging (Duplicate_report (py_strip answer)) ?w2"
  from c nonempty check_duplicates_answer [OF a, of w1]
  have "process_pdfs_for_duplicates e w pat ns nw sl True
      = (None, foldl (process_report_line snips) ?w3 (py_split [newline] (py_strip answer)))"
    by (simp add: process_pdfs_for_duplicates_def Let_def)
  moreover from collect_snippets_frame [OF c]
  have "present ?w3 = present w \<and> protected ?w3 = protected w \<and> removals ?w3 = removals w"
    by (simp add: logging_simps)
  ultimately show ?thesis by blast
qed

text \<open>The definitions a concrete run unfolds.\<close>

lemmas eval_defs = sample_env_def sample_world_def collect_snippets_def py_endswith_def
  extract_and_store_snippet_def extract_with_pymupdf_def get_text_snippet_def
  split_sentences_def py_strip_def py_slice_to_def is_space_def is_terminal_def
  process_pdfs_for_duplicates_def check_duplicates_using_ai_def Let_def logging_def
  py_split_def newline_def apostrophe_def process_report_line_def parse_duplicate_line_def
  py_index_def py_rstrip_def find_path_def basename_def os_path_exists_def delete_file_def
  os_remove_def

section \<open>The claims\<close>

subsection \<open>No deletion unless enabled\<close>

text \<open>
  Claim C1. When \<open>delete_dupes\<close> is false, a run never calls \<open>os.remove\<close> and leaves the set
  of existing files as it found it, whatever the files, their text and the answer of the
  model are.
\<close>

theorem no_deletion_when_disabled:
  "\<not> delete_dupes \<Longrightarrow>
   removals (snd (process_pdfs_for_duplicates e w file_pattern num_sentences num_words sleep delete_dupes))
     = removals w
   \<and> present (snd (process_pdfs_for_duplicates e w file_pattern num_sentences num_words sleep delete_dupes))
     = present w"
proof -
  assume off: "\<not> delete_dupes"
  obtain snips w1 where c: "collect_snippets e w file_pattern num_sentences num_words = (snips, w1)"
    by (cases "collect_snippets e w file_pattern num_sentences num_words")
  note fr = collect_snippets_frame [OF c]
  from process_run_cases [OF c, of sleep delete_dupes] off fr show ?thesis
    by (auto simp: logging_simps dest!: check_duplicates_frame)
qed

theorem no_deletion_when_disabled_witness:
  "\<not> False
   \<and> removals (snd (process_pdfs_for_duplicates
        (sample_env [''A.pdf'', ''B.pdf''] [] ''Hello world.'' ''File 'A.pdf' and File 'B.pdf' are duplicates.'')
        (sample_world [''A.pdf'', ''B.pdf'']) ''*.pdf'' (Some 1) None 3 False)) = []
   \<and> present (snd (process_pdfs_for_duplicates
        (sample_env [''A.pdf'', ''B.pdf''] [] ''Hello world.'' ''File 'A.pdf' and File 'B.pdf' are duplicates.'')
        (sample_world [''A.pdf'', ''B.pdf'']) ''*.pdf'' (Some 1) None 3 False)) = {''A.pdf'', ''B.pdf''}"
  using no_deletion_when_disabled [of False
      "sample_env [''A.pdf'', ''B.pdf''] [] ''Hello world.'' ''File 'A.pdf' and File 'B.pdf' are duplicates.''"
      "sample_world [''A.pdf'', ''B.pdf'']" "''*.pdf''" "Some 1" None 3]
  by (simp add: sample_world_def)

subsection \<open>Only fingerprinted files are deleted\<close>

text \<open>
  Claim C9. Every path a run passes to \<open>os.remove\<close> is a key of the mapping the collector
  built in that run.
\<close>

theorem deletes_only_fingerprinted_files:
  "removals w = [] \<Longrightarrow>
   set (removals (snd (process_pdfs_for_duplicates e w file_pattern num_sentences num_words sleep delete_dupes)))
     \<subseteq> fst ` set (fst (collect_snippets e w file_pattern num_sentences num_words))"
proof -
  assume fresh: "removals w = []"
  obtain snips w1 where c: "collect_snippets e w file_pattern num_sentences num_words = (snips, w1)"
    by (cases "collect_snippets e w file_pattern num_sentences num_words")
  note fr = collect_snippets_frame [OF c]
  from process_run_cases [OF c, of sleep delete_dupes]
  consider "process_pdfs_for_duplicates e w file_pattern num_sentences num_words sleep delete_dupes
              = (None, logging No_valid_snippets w1)"
    | err w2 where "check_duplicates_using_ai e w1 snips = (Inl err, w2)"
        "process_pdfs_for_duplicates e w file_pattern num_sentences num_words sleep delete_dupes = (Some err, w2)"
    | report w2 where "check_duplicates_using_ai e w1 snips = (Inr report, w2)"
        "process_pdfs_for_duplicates e w file_pattern num_sentences num_words sleep delete_dupes =
              (None, if delete_dupes
                     then foldl (process_report_line snips) (logging (Duplicate_report report) w2)
                                (py_split [newline] report)
                     else logging (Duplicate_report report) w2)"
    by blast
  then show ?thesis
  proof cases
    case 1
    with fr fresh show ?thesis by (simp add: logging_simps)
  next
    case 2
    with fr fresh check_duplicates_frame [OF 2(1)] show ?thesis by simp
  next
    case 3
    from fr fresh check_duplicates_frame [OF 3(1)]
    have "removals (logging (Duplicate_report report) w2) = []" by (simp add: logging_simps)
    with report_removals [of snips "logging (Duplicate_report report) w2" "py_split [newline] report"]
    have "set (removals (foldl (process_report_line snips) (logging (Duplicate_report report) w2)
                 (py_split [newline] report))) \<subseteq> fst ` set snips" by simp
    with 3(2) c \<open>removals (logging (Duplicate_report report) w2) = []\<close> show ?thesis
      by (cases delete_dupes) simp_all
  qed
qed

theorem deletes_only_fingerprinted_files_witness:
  "removals (sample_world [''A.pdf'', ''B.pdf'']) = []
   \<and> set (removals (snd (process_pdfs_for_duplicates
        (sample_env [''A.pdf'', ''B.pdf''] [] ''Hello world.'' ''File 'A.pdf' and File 'B.pdf' are duplicates.'')
        (sample_world [''A.pdf'', ''B.pdf'']) ''*.pdf'' (Some 1) None 3 True)))
       \<subseteq> fst ` set (fst (collect_snippets
        (sample_env [''A.pdf'', ''B.pdf''] [] ''Hello world.'' ''File 'A.pdf' and File 'B.pdf' are duplicates.'')
        (sample_world [''A.pdf'', ''B.pdf'']) ''*.pdf'' (Some 1) None))"
proof -
  have fresh: "removals (sample_world [''A.pdf'', ''B.pdf'']) = []"
    by (simp add: sample_world_def)
  from fresh deletes_only_fingerprinted_files [OF fresh] show ?thesis by simp
qed

subsection \<open>An empty mapping ends the run\<close>

text \<open>
  Claim C6. When the collector returns an empty mapping, the run returns normally after
  logging one more entry, the warning that there are no valid snippets; it sends no
  completion request, calls \<open>os.remove\<close> on nothing and leaves the files as they were.
\<close>

theorem empty_mapping_skips_llm:
  "fst (collect_snippets e w file_pattern num_sentences num_words) = [] \<Longrightarrow>
   fst (process_pdfs_for_duplicates e w file_pattern num_sentences num_words sleep delete_dupes) = None
   \<and> log (snd (process_pdfs_for_duplicates e w file_pattern num_sentences num_words sleep delete_dupes))
       = log (snd (collect_snippets e w file_pattern num_sentences num_words)) @ [No_valid_snippets]
   \<and> level_of No_valid_snippets = WARNING
   \<and> completions (snd (process_pdfs_for_duplicates e w file_pattern num_sentences num_words sleep delete_dupes))
       = completions w
   \<and> removals (snd (process_pdfs_for_duplicates e w file_pattern num_sentences num_words sleep delete_dupes))
       = removals w
   \<and> present (snd (process_pdfs_for_duplicates e w file_pattern num_sentences num_words sleep delete_dupes))
       = present w"
proof -
  assume empty: "fst (collect_snippets e w file_pattern num_sentences num_words) = []"
  obtain snips w1 where c: "collect_snippets e w file_pattern num_sentences num_words = (snips, w1)"
    by (cases "collect_snippets e w file_pattern num_sentences num_words")
  with empty have "snips = []" by simp
  with c have "process_pdfs_for_duplicates e w file_pattern num_sentences num_words sleep delete_dupes
      = (None, logging No_valid_snippets w1)"
    by (simp add: process_pdfs_for_duplicates_def)
  with collect_snippets_frame [OF c] c show ?thesis by (simp add: logging_simps)
qed

theorem empty_mapping_skips_llm_witness:
  "fst (collect_snippets (sample_env [''A.pdf'', ''notes.txt''] [''A.pdf''] ''Hello.'' ''File 'A.pdf' and File 'A.pdf' are duplicates.'')
          (sample_world [''A.pdf'', ''notes.txt'']) ''*'' (Some 1) None) = []
   \<and> completions (snd (process_pdfs_for_duplicates
          (sample_env [''A.pdf'', ''notes.txt''] [''A.pdf''] ''Hello.'' ''File 'A.pdf' and File 'A.pdf' are duplicates.'')
          (sample_world [''A.pdf'', ''notes.txt'']) ''*'' (Some 1) None 3 True)) = []
   \<and> log (snd (process_pdfs_for_duplicates
          (sample_env [''A.pdf'', ''notes.txt''] [''A.pdf''] ''Hello.'' ''File 'A.pdf' and File 'A.pdf' are duplicates.'')
          (sample_world [''A.pdf'', ''notes.txt'']) ''*'' (Some 1) None 3 True))
       = [Extract_failed ''A.pdf'' PdfError, Skipping_file ''A.pdf'', No_valid_snippets]"
proof -
  have c: "collect_snippets (sample_env [''A.pdf'', ''notes.txt''] [''A.pdf''] ''Hello.'' ''File 'A.pdf' and File 'A.pdf' are duplicates.'')
          (sample_world [''A.pdf'', ''notes.txt'']) ''*'' (Some 1) None
        = ([], \<lparr>present = {''A.pdf'', ''notes.txt''}, protected = {},
                 log = [Extract_failed ''A.pdf'' PdfError, Skipping_file ''A.pdf''],
                 removals = [], completions = []\<rparr>)"
    by (simp add: collect_snippets_def sample_env_def sample_world_def py_endswith_def
        extract_and_store_snippet_def extract_with_pymupdf_def logging_def)
  then have empty: "fst (collect_snippets (sample_env [''A.pdf'', ''notes.txt''] [''A.pdf''] ''Hello.'' ''File 'A.pdf' and File 'A.pdf' are duplicates.'')
          (sample_world [''A.pdf'', ''notes.txt'']) ''*'' (Some 1) None) = []"
    by simp
  from empty_mapping_skips_llm [OF empty, of 3 True] empty c show ?thesis
    by (simp add: sample_world_def)
qed

subsection \<open>The word count takes precedence\<close>

text \<open>
  Claim C10. When both a word count and a sentence count are given, the snippet is the
  first words of the text joined by single spaces, and it is the same for every sentence
  count.
\<close>

theorem word_count_overrides_sentence_count:
  "get_text_snippet text (Some s) (Some n) = py_join '' '' (py_slice_to (findall_words text) (Some n))
   \<and> get_text_snippet text (Some s) (Some n) = get_text_snippet text (Some s') (Some n)"
  by (simp add: get_text_snippet_def)

theorem word_count_overrides_sentence_count_witness:
  "get_text_snippet ''One two. Three four!'' (Some 1) (Some 3) = ''One two Three''
   \<and> get_text_snippet ''One two. Three four!'' (Some 1) (Some 3)
       = get_text_snippet ''One two. Three four!'' (Some 7) (Some 3)"
proof -
  have "py_join '' '' (py_slice_to (findall_words ''One two. Three four!'') (Some 3))
      = ''One two Three''"
    by (simp add: findall_words_def py_slice_to_def is_word_char_def)
  with word_count_overrides_sentence_count [of "''One two. Three four!''" 1 3 7]
  show ?thesis by metis
qed

subsection \<open>Bounds on the snippet\<close>

text \<open>
  Claim C8, as amended. For a count \<open>n\<close> that is not negative, the word tokens of the
  word-count snippet are the first \<open>n\<close> word tokens of the text, so there are at most \<open>n\<close>
  of them, and the sentence-count snippet has at most \<open>n\<close> sentences. The snippet is empty
  only when the count is zero or the text has nothing for the policy to take: the
  word-count snippet is empty exactly when \<open>n\<close> is zero or the text has no word token, the
  sentence-count snippet exactly when \<open>n\<close> is zero or the text is empty once stripped of
  whitespace. In particular an empty text gives an empty snippet under every policy.
\<close>

theorem snippet_bounds:
  "0 \<le> n \<Longrightarrow>
   findall_words (get_text_snippet text num_sentences (Some n)) = take (nat n) (findall_words text)
   \<and> length (findall_words (get_text_snippet text num_sentences (Some n))) \<le> nat n
   \<and> sentence_count (get_text_snippet text (Some n) None) \<le> nat n
   \<and> (get_text_snippet text num_sentences (Some n) = [] \<longleftrightarrow> n = 0 \<or> findall_words text = [])
   \<and> (get_text_snippet text (Some n) None = [] \<longleftrightarrow> n = 0 \<or> py_strip text = [])
   \<and> get_text_snippet [] num_sentences num_words = []"
proof -
  assume n: "0 \<le> n"
  from n have "findall_words (get_text_snippet text num_sentences (Some n))
      = take (nat n) (findall_words text)"
    by (simp add: findall_words_snippet py_slice_to_def)
  moreover from this
  have "length (findall_words (get_text_snippet text num_sentences (Some n))) \<le> nat n"
    by simp
  moreover note sentence_count_snippet [OF n, of "text"]
    word_snippet_empty [OF n, of "text" num_sentences]
    sentence_snippet_empty [OF n, of "text"]
    snippet_of_empty [of num_sentences num_words]
  ultimately show ?thesis by (intro conjI)
qed

theorem snippet_bounds_witness:
  "(0::int) \<le> 2
   \<and> findall_words (get_text_snippet ''One two. Three four! Five'' (Some 1) (Some 2))
       = [''One'', ''two'']
   \<and> get_text_snippet ''One two. Three four! Five'' (Some 2) None = ''One two. Three four!''
   \<and> sentence_count (get_text_snippet ''One two. Three four! Five'' (Some 2) None) \<le> 2
   \<and> findall_words ''One two. Three four! Five'' \<noteq> []
   \<and> get_text_snippet ''One two. Three four! Five'' (Some 1) (Some 2) \<noteq> []"
proof -
  have w: "take (nat 2) (findall_words ''One two. Three four! Five'') = [''One'', ''two'']"
    by (simp add: findall_words_def is_word_char_def)
  then have ne: "findall_words ''One two. Three four! Five'' \<noteq> []" by auto
  have s: "get_text_snippet ''One two. Three four! Five'' (Some 2) None = ''One two. Three four!''"
    by (simp add: get_text_snippet_def split_sentences_def py_strip_def py_slice_to_def
        is_space_def is_terminal_def)
  from snippet_bounds [of 2 "''One two. Three four! Five''" "Some 1" None] w s ne
  show ?thesis by simp
qed

text \<open>
  Claim C8 as stated fails: a text of punctuation only has no word token and a text of
  whitespace only has no sentence, so both give an empty snippet from a text that is not
  empty; and a negative count, which the slice of the source reads from the end, leaves
  more tokens than the count.
\<close>

theorem snippet_empty_from_nonempty_text:
  "get_text_snippet ''?!'' (Some 1) (Some 3) = [] \<and> ''?!'' \<noteq> []
   \<and> get_text_snippet '' '' (Some 1) None = [] \<and> '' '' \<noteq> []
   \<and> findall_words (get_text_snippet ''a b c'' None (Some (- 1))) = [''a'', ''b'']"
  by (simp add: get_text_snippet_def findall_words_def split_sentences_def py_strip_def
      py_slice_to_def is_word_char_def is_space_def)

subsection \<open>The second file is deleted, the first is kept\<close>

text \<open>
  Claim C2, as amended. Deletion being enabled, take a line of the report that has the
  marker and parses to a pair whose two basenames both resolve. The run returns normally;
  if the file resolved from the second basename existed when the run began, \<open>os.remove\<close> is
  called on it; unless the operating system refuses its removal, it does not exist when the
  run ends; and the file resolved from the first basename still exists when the run ends,
  provided it existed when the run began and no line of the report, this one included,
  resolves it from its second basename.
\<close>

theorem second_deleted_first_kept:
  assumes "collect_snippets e w file_pattern num_sentences num_words = (pdf_snippets, w1)"
    and "chat_completion e (comparison_prompt pdf_snippets) = Inr answer"
    and "line \<in> set (py_split [newline] (py_strip answer))"
    and "py_contains ''are duplicates'' line"
    and "parse_duplicate_line line = Inr (file1, file2)"
    and "find_path pdf_snippets file1 = Some p1"
    and "find_path pdf_snippets file2 = Some p2"
  shows "fst (process_pdfs_for_duplicates e w file_pattern num_sentences num_words sleep True) = None
    \<and> (p2 \<in> present w \<longrightarrow>
         p2 \<in> set (removals (snd (process_pdfs_for_duplicates e w file_pattern num_sentences num_words sleep True))))
    \<and> (p2 \<notin> protected w \<longrightarrow>
         p2 \<notin> present (snd (process_pdfs_for_duplicates e w file_pattern num_sentences num_words sleep True)))
    \<and> (p1 \<in> present w
         \<and> (\<forall>l \<in> set (py_split [newline] (py_strip answer)). \<forall>g1 g2.
               py_contains ''are duplicates'' l \<and> parse_duplicate_line l = Inr (g1, g2)
               \<longrightarrow> find_path pdf_snippets g2 \<noteq> Some p1)
         \<longrightarrow> p1 \<in> present (snd (process_pdfs_for_duplicates e w file_pattern num_sentences num_words sleep True)))"
proof -
  let ?lines = "py_split [newline] (py_strip answer)"
  from find_path_nonempty [OF assms(7)] have nonempty: "pdf_snippets \<noteq> []" .
  from run_with_answer [OF assms(1) nonempty assms(2), of sleep]
  obtain w3 where run: "process_pdfs_for_duplicates e w file_pattern num_sentences num_words sleep True
           = (None, foldl (process_report_line pdf_snippets) w3 ?lines)"
    and fr: "present w3 = present w" "protected w3 = protected w" "removals w3 = removals w"
    by blast
  from find_path_Some [OF assms(7)] collect_snippets_keys [OF assms(1)]
  have p2: "p2 \<noteq> []" by blast
  have attempted: "p2 \<in> present w \<longrightarrow>
      p2 \<in> set (removals (foldl (process_report_line pdf_snippets) w3 ?lines))"
    using report_attempted [OF assms(3,4,5,7) p2, of w3] fr by simp
  have gone: "p2 \<notin> protected w \<longrightarrow>
      p2 \<notin> present (foldl (process_report_line pdf_snippets) w3 ?lines)"
    using report_gone [OF assms(3,4,5,7) p2, of w3] fr by simp
  have kept: "p1 \<in> present w
         \<and> (\<forall>l \<in> set ?lines. \<forall>g1 g2.
               py_contains ''are duplicates'' l \<and> parse_duplicate_line l = Inr (g1, g2)
               \<longrightarrow> find_path pdf_snippets g2 \<noteq> Some p1)
         \<longrightarrow> p1 \<in> present (foldl (process_report_line pdf_snippets) w3 ?lines)"
    using report_kept [of p1 w3 ?lines pdf_snippets] fr by blast
  from attempted gone kept show ?thesis by (simp only: run fst_conv snd_conv)
qed

theorem second_deleted_first_kept_witness:
  "''B.pdf'' \<in> set (removals (snd (process_pdfs_for_duplicates
        (sample_env [''A.pdf'', ''B.pdf''] [] ''Hello world.'' quoted_report)
        (sample_world [''A.pdf'', ''B.pdf'']) ''*.pdf'' (Some 1) None 3 True)))
   \<and> ''B.pdf'' \<notin> present (snd (process_pdfs_for_duplicates
        (sample_env [''A.pdf'', ''B.pdf''] [] ''Hello world.'' quoted_report)
        (sample_world [''A.pdf'', ''B.pdf'']) ''*.pdf'' (Some 1) None 3 True))
   \<and> ''A.pdf'' \<in> present (snd (process_pdfs_for_duplicates
        (sample_env [''A.pdf'', ''B.pdf''] [] ''Hello world.'' quoted_report)
        (sample_world [''A.pdf'', ''B.pdf'']) ''*.pdf'' (Some 1) None 3 True))"
proof -
  let ?e = "sample_env [''A.pdf'', ''B.pdf''] [] ''Hello world.'' quoted_report"
  let ?w = "sample_world [''A.pdf'', ''B.pdf'']"
  let ?snips = "[(''A.pdf'', ''Hello world.''), (''B.pdf'', ''Hello world.'')]"
  have c: "collect_snippets ?e ?w ''*.pdf'' (Some 1) None = (?snips, ?w)"
    by (simp add: eval_defs)
  have a: "chat_completion ?e (comparison_prompt ?snips) = Inr quoted_report"
    by (simp add: sample_env_def)
  have lines: "py_split [newline] (py_strip quoted_report) = [quoted_report]"
    by (simp add: eval_defs quoted_report_def)
  then have l: "quoted_report \<in> set (py_split [newline] (py_strip quoted_report))" by simp
  have m: "py_contains ''are duplicates'' quoted_report"
    by (simp add: quoted_report_def)
  have p: "parse_duplicate_line quoted_report = Inr (''A.pdf'', ''B.pdf'')"
    by (simp add: eval_defs quoted_report_def)
  have f1: "find_path ?snips ''A.pdf'' = Some ''A.pdf''"
    by (simp add: eval_defs)
  have f2: "find_path ?snips ''B.pdf'' = Some ''B.pdf''"
    by (simp add: eval_defs)
  have here: "''A.pdf'' \<in> present ?w" "''B.pdf'' \<in> present ?w" "''B.pdf'' \<notin> protected ?w"
    by (simp_all add: sample_world_def)
  have others: "\<forall>l \<in> set (py_split [newline] (py_strip quoted_report)). \<forall>g1 g2.
      py_contains ''are duplicates'' l \<and> parse_duplicate_line l = Inr (g1, g2)
      \<longrightarrow> find_path ?snips g2 \<noteq> Some ''A.pdf''"
    using p f2 by (simp add: lines)
  from second_deleted_first_kept [OF c a l m p f1 f2, of 3] here others
  show ?thesis by blast
qed

text \<open>
  Claim C2 as stated fails on a report that names a pair in both orders: each line deletes
  its second file, so the first file of the first pair is deleted by the second line.
\<close>

theorem first_file_deleted_by_mutual_report:
  "find_path (fst (collect_snippets (sample_env [''A.pdf'', ''B.pdf''] [] ''Hello world.'' mutual_report)
       (sample_world [''A.pdf'', ''B.pdf'']) ''*.pdf'' (Some 1) None)) ''A.pdf'' = Some ''A.pdf''
   \<and> find_path (fst (collect_snippets (sample_env [''A.pdf'', ''B.pdf''] [] ''Hello world.'' mutual_report)
       (sample_world [''A.pdf'', ''B.pdf'']) ''*.pdf'' (Some 1) None)) ''B.pdf'' = Some ''B.pdf''
   \<and> removals (snd (process_pdfs_for_duplicates (sample_env [''A.pdf'', ''B.pdf''] [] ''Hello world.'' mutual_report)
       (sample_world [''A.pdf'', ''B.pdf'']) ''*.pdf'' (Some 1) None 3 True)) = [''B.pdf'', ''A.pdf'']
   \<and> present (snd (process_pdfs_for_duplicates (sample_env [''A.pdf'', ''B.pdf''] [] ''Hello world.'' mutual_report)
       (sample_world [''A.pdf'', ''B.pdf'']) ''*.pdf'' (Some 1) None 3 True)) = {}"
  by (auto simp: eval_defs mutual_report_def)

subsection \<open>A pair whose second basename does not resolve\<close>

text \<open>
  Claim C3, as amended. When the second basename of a parsed pair is not the basename of any
  key of the mapping, the line changes nothing: no file is deleted, \<open>os.remove\<close> is not
  called, nothing is logged, and the loop goes on with the remaining lines.
\<close>

theorem unresolved_second_skips_pair:
  "py_contains ''are duplicates'' line \<Longrightarrow> parse_duplicate_line line = Inr (file1, file2) \<Longrightarrow>
   find_path pdf_snippets file2 = None \<Longrightarrow>
   process_report_line pdf_snippets w line = w
   \<and> foldl (process_report_line pdf_snippets) w (line # rest)
       = foldl (process_report_line pdf_snippets) w rest"
  by (simp add: process_report_line_def)

theorem unresolved_second_skips_pair_witness:
  "py_contains ''are duplicates'' unknown_second_report
   \<and> parse_duplicate_line unknown_second_report = Inr (''A.pdf'', ''X.pdf'')
   \<and> find_path [(''A.pdf'', ''Hello world.'')] ''X.pdf'' = None
   \<and> process_report_line [(''A.pdf'', ''Hello world.'')] (sample_world [''A.pdf'']) unknown_second_report
       = sample_world [''A.pdf'']"
proof -
  have m: "py_contains ''are duplicates'' unknown_second_report"
    by (simp add: unknown_second_report_def)
  have p: "parse_duplicate_line unknown_second_report = Inr (''A.pdf'', ''X.pdf'')"
    by (simp add: eval_defs unknown_second_report_def)
  have f: "find_path [(''A.pdf'', ''Hello world.'')] ''X.pdf'' = None"
    by (simp add: eval_defs)
  from unresolved_second_skips_pair [OF m p f, of "sample_world [''A.pdf'']" "[]"] m p f
  show ?thesis by simp
qed

text \<open>
  Claim C3 as stated fails when only the first basename is unknown: the resolved first
  path is not consulted, the second file is deleted, and the only entries logged are the
  report and the deletion. When the second basename is unknown, nothing is deleted and
  nothing is logged but the report.
\<close>

theorem unresolved_first_still_deletes:
  "find_path (fst (collect_snippets (sample_env [''B.pdf''] [] ''Hello world.'' unknown_first_report)
       (sample_world [''B.pdf'']) ''*.pdf'' (Some 1) None)) ''X.pdf'' = None
   \<and> parse_duplicate_line unknown_first_report = Inr (''X.pdf'', ''B.pdf'')
   \<and> removals (snd (process_pdfs_for_duplicates (sample_env [''B.pdf''] [] ''Hello world.'' unknown_first_report)
       (sample_world [''B.pdf'']) ''*.pdf'' (Some 1) None 3 True)) = [''B.pdf'']
   \<and> present (snd (process_pdfs_for_duplicates (sample_env [''B.pdf''] [] ''Hello world.'' unknown_first_report)
       (sample_world [''B.pdf'']) ''*.pdf'' (Some 1) None 3 True)) = {}
   \<and> log (snd (process_pdfs_for_duplicates (sample_env [''B.pdf''] [] ''Hello world.'' unknown_first_report)
       (sample_world [''B.pdf'']) ''*.pdf'' (Some 1) None 3 True))
       = [Duplicate_report unknown_first_report, Deleted_file ''B.pdf'']
   \<and> log (snd (process_pdfs_for_duplicates (sample_env [''A.pdf''] [] ''Hello world.'' unknown_second_report)
       (sample_world [''A.pdf'']) ''*.pdf'' (Some 1) None 3 True))
       = [Duplicate_report unknown_second_report]"
  by (simp add: eval_defs unknown_first_report_def unknown_second_report_def)

subsection \<open>The line the parser reads\<close>

text \<open>
  Claim C4, as amended. The report is the single line in which both basenames stand in
  single quotes. It is one line with the marker; splitting on \<open>" and "\<close> gives two
  segments; the names extracted are \<open>A.pdf\<close> and \<open>B.pdf\<close>; and in every mapping that has
  keys with these basenames both names resolve to such keys.
\<close>

theorem quoted_report_yields_one_pair:
  "a \<in> fst ` set pdf_snippets \<Longrightarrow> basename a = ''A.pdf'' \<Longrightarrow>
   b \<in> fst ` set pdf_snippets \<Longrightarrow> basename b = ''B.pdf'' \<Longrightarrow>
   py_split [newline] quoted_report = [quoted_report]
   \<and> py_contains ''are duplicates'' quoted_report
   \<and> py_split '' and '' quoted_report
       = [''File 'A.pdf'' @ [apostrophe], ''File 'B.pdf' are duplicates.'']
   \<and> parse_duplicate_line quoted_report = Inr (''A.pdf'', ''B.pdf'')
   \<and> (\<exists>p1 p2. find_path pdf_snippets ''A.pdf'' = Some p1 \<and> basename p1 = ''A.pdf''
         \<and> p1 \<in> fst ` set pdf_snippets
         \<and> find_path pdf_snippets ''B.pdf'' = Some p2 \<and> basename p2 = ''B.pdf''
         \<and> p2 \<in> fst ` set pdf_snippets)"
proof -
  assume a: "a \<in> fst ` set pdf_snippets" "basename a = ''A.pdf''"
    and b: "b \<in> fst ` set pdf_snippets" "basename b = ''B.pdf''"
  have "py_split [newline] quoted_report = [quoted_report]"
    by (simp add: quoted_report_def py_split_def newline_def)
  moreover have "py_contains ''are duplicates'' quoted_report"
    by (simp add: quoted_report_def)
  moreover have "py_split '' and '' quoted_report
       = [''File 'A.pdf'' @ [apostrophe], ''File 'B.pdf' are duplicates.'']"
    by (simp add: quoted_report_def py_split_def apostrophe_def)
  moreover have "parse_duplicate_line quoted_report = Inr (''A.pdf'', ''B.pdf'')"
    by (simp add: quoted_report_def parse_duplicate_line_def py_split_def py_index_def
        py_rstrip_def apostrophe_def)
  moreover note find_path_exists [OF a] find_path_exists [OF b]
  ultimately show ?thesis by blast
qed

theorem quoted_report_yields_one_pair_witness:
  "''docs/A.pdf'' \<in> fst ` set [(''docs/A.pdf'', ''Hello world.''), (''docs/B.pdf'', ''Hello world.'')]
   \<and> basename ''docs/A.pdf'' = ''A.pdf''
   \<and> ''docs/B.pdf'' \<in> fst ` set [(''docs/A.pdf'', ''Hello world.''), (''docs/B.pdf'', ''Hello world.'')]
   \<and> basename ''docs/B.pdf'' = ''B.pdf''
   \<and> parse_duplicate_line quoted_report = Inr (''A.pdf'', ''B.pdf'')
   \<and> find_path [(''docs/A.pdf'', ''Hello world.''), (''docs/B.pdf'', ''Hello world.'')] ''A.pdf''
       = Some ''docs/A.pdf''
   \<and> find_path [(''docs/A.pdf'', ''Hello world.''), (''docs/B.pdf'', ''Hello world.'')] ''B.pdf''
       = Some ''docs/B.pdf''"
proof -
  let ?snips = "[(''docs/A.pdf'', ''Hello world.''), (''docs/B.pdf'', ''Hello world.'')]"
  have a: "''docs/A.pdf'' \<in> fst ` set ?snips" "basename ''docs/A.pdf'' = ''A.pdf''"
    by (simp_all add: basename_def)
  have b: "''docs/B.pdf'' \<in> fst ` set ?snips" "basename ''docs/B.pdf'' = ''B.pdf''"
    by (simp_all add: basename_def)
  have f: "find_path ?snips ''A.pdf'' = Some ''docs/A.pdf''"
    "find_path ?snips ''B.pdf'' = Some ''docs/B.pdf''"
    by (simp_all add: find_path_def basename_def)
  from quoted_report_yields_one_pair [OF a b] a b f show ?thesis by simp
qed

text \<open>
  Claim C4 as stated fails: without the quotes no segment holds the marker \<open>File '\<close>, the
  index into the split raises \<open>IndexError\<close>, and the run logs the parse error and deletes
  nothing.
\<close>

theorem unquoted_report_yields_no_pair:
  "parse_duplicate_line unquoted_report = Inl IndexError
   \<and> removals (snd (process_pdfs_for_duplicates (sample_env [''A.pdf'', ''B.pdf''] [] ''Hello world.'' unquoted_report)
       (sample_world [''A.pdf'', ''B.pdf'']) ''*.pdf'' (Some 1) None 3 True)) = []
   \<and> log (snd (process_pdfs_for_duplicates (sample_env [''A.pdf'', ''B.pdf''] [] ''Hello world.'' unquoted_report)
       (sample_world [''A.pdf'', ''B.pdf'']) ''*.pdf'' (Some 1) None 3 True))
       = [Duplicate_report unquoted_report, Parse_error IndexError]"
  by (simp add: eval_defs unquoted_report_def)

subsection \<open>What the mapping holds\<close>

text \<open>
  Claim C5, as amended. Every key of the mapping is a file whose first page was read, and
  its value is the snippet of that page (which may be empty); a file whose extraction
  failed is not a key; if such a file was among the matched PDF files, the failure and the
  skip are in the log; and the only exception that leaves a run is that of the completion
  request.
\<close>

theorem mapping_holds_extracted_snippets:
  "(\<forall>(k, v) \<in> set (fst (collect_snippets e w file_pattern num_sentences num_words)).
      \<exists>page. first_page_text e k = Inr page \<and> v = get_text_snippet page num_sentences num_words)
   \<and> (\<forall>p err. first_page_text e p = Inl err \<longrightarrow>
         p \<notin> fst ` set (fst (collect_snippets e w file_pattern num_sentences num_words)))
   \<and> (\<forall>p err. p \<in> set (glob_glob e file_pattern) \<and> py_endswith p ''.pdf''
         \<and> first_page_text e p = Inl err \<longrightarrow>
         Extract_failed p err \<in> set (log (snd (collect_snippets e w file_pattern num_sentences num_words)))
         \<and> Skipping_file p \<in> set (log (snd (collect_snippets e w file_pattern num_sentences num_words))))
   \<and> (\<forall>err. fst (process_pdfs_for_duplicates e w file_pattern num_sentences num_words sleep delete_dupes)
           = Some err \<longrightarrow>
         chat_completion e (comparison_prompt
           (fst (collect_snippets e w file_pattern num_sentences num_words))) = Inl err)"
proof -
  obtain snips w1 where c: "collect_snippets e w file_pattern num_sentences num_words = (snips, w1)"
    by (cases "collect_snippets e w file_pattern num_sentences num_words")
  note loop = c [unfolded collect_snippets_def]
  have entries: "\<forall>(k, v) \<in> set snips.
      \<exists>page. first_page_text e k = Inr page \<and> v = get_text_snippet page num_sentences num_words"
    using collect_loop_entries [OF loop] by auto
  have failed: "\<forall>p err. first_page_text e p = Inl err \<longrightarrow> p \<notin> fst ` set snips"
    using collect_loop_failed [OF loop] by auto
  have logged: "\<forall>p err. p \<in> set (glob_glob e file_pattern) \<and> py_endswith p ''.pdf''
         \<and> first_page_text e p = Inl err \<longrightarrow>
         Extract_failed p err \<in> set (log w1) \<and> Skipping_file p \<in> set (log w1)"
    using collect_loop_failed_logged [OF loop] by auto
  have raised: "\<forall>err. fst (process_pdfs_for_duplicates e w file_pattern num_sentences num_words sleep delete_dupes)
           = Some err \<longrightarrow> chat_completion e (comparison_prompt snips) = Inl err"
    using process_run_cases [OF c, of sleep delete_dupes]
    by (auto simp: check_duplicates_using_ai_def Let_def split: sum.splits)
  from entries failed logged raised c show ?thesis by simp
qed

theorem mapping_holds_extracted_snippets_witness:
  "fst (collect_snippets (sample_env [''A.pdf'', ''bad.pdf''] [''bad.pdf''] ''Hello world. Bye.'' quoted_report)
        (sample_world [''A.pdf'', ''bad.pdf'']) ''*.pdf'' (Some 1) None) = [(''A.pdf'', ''Hello world.'')]
   \<and> first_page_text (sample_env [''A.pdf'', ''bad.pdf''] [''bad.pdf''] ''Hello world. Bye.'' quoted_report)
        ''bad.pdf'' = Inl PdfError
   \<and> ''bad.pdf'' \<notin> fst ` set (fst (collect_snippets
        (sample_env [''A.pdf'', ''bad.pdf''] [''bad.pdf''] ''Hello world. Bye.'' quoted_report)
        (sample_world [''A.pdf'', ''bad.pdf'']) ''*.pdf'' (Some 1) None))
   \<and> Extract_failed ''bad.pdf'' PdfError \<in> set (log (snd (collect_snippets
        (sample_env [''A.pdf'', ''bad.pdf''] [''bad.pdf''] ''Hello world. Bye.'' quoted_report)
        (sample_world [''A.pdf'', ''bad.pdf'']) ''*.pdf'' (Some 1) None)))
   \<and> Skipping_file ''bad.pdf'' \<in> set (log (snd (collect_snippets
        (sample_env [''A.pdf'', ''bad.pdf''] [''bad.pdf''] ''Hello world. Bye.'' quoted_report)
        (sample_world [''A.pdf'', ''bad.pdf'']) ''*.pdf'' (Some 1) None)))"
proof -
  let ?e = "sample_env [''A.pdf'', ''bad.pdf''] [''bad.pdf''] ''Hello world. Bye.'' quoted_report"
  let ?w = "sample_world [''A.pdf'', ''bad.pdf'']"
  have c: "fst (collect_snippets ?e ?w ''*.pdf'' (Some 1) None) = [(''A.pdf'', ''Hello world.'')]"
    by (simp add: eval_defs)
  have bad: "first_page_text ?e ''bad.pdf'' = Inl PdfError"
    by (simp add: sample_env_def)
  have listed: "''bad.pdf'' \<in> set (glob_glob ?e ''*.pdf'')" "py_endswith ''bad.pdf'' ''.pdf''"
    by (simp_all add: sample_env_def py_endswith_def)
  from mapping_holds_extracted_snippets [of ?e ?w "''*.pdf''" "Some 1" None 3 True]
    c bad listed
  show ?thesis by blast
qed

text \<open>
  Claim C5 as stated fails on a first page without text: extraction succeeds, the list of
  snippets is not empty, and the file is mapped to the empty snippet.
\<close>

theorem blank_page_maps_to_empty_snippet:
  "fst (collect_snippets (sample_env [''scan.pdf''] [] [] quoted_report)
       (sample_world [''scan.pdf'']) ''*.pdf'' (Some 1) None) = [(''scan.pdf'', [])]"
  by (simp add: eval_defs)

subsection \<open>A target that is already gone\<close>

text \<open>
  Claim C7, as amended. When the file resolved from the second basename does not exist, the
  guard on \<open>os.path.exists\<close> skips \<open>delete_file\<close>: the line changes nothing, so nothing is
  logged for the pair, nothing is raised, and the loop goes on with the remaining lines.
  \<open>delete_file\<close> itself, called on a missing file, catches the \<open>OSError\<close>, logs it and leaves
  the files as they are.
\<close>

theorem missing_target_is_silent:
  "py_contains ''are duplicates'' line \<Longrightarrow> parse_duplicate_line line = Inr (file1, file2) \<Longrightarrow>
   find_path pdf_snippets file2 = Some p \<Longrightarrow> \<not> os_path_exists w p \<Longrightarrow>
   process_report_line pdf_snippets w line = w
   \<and> foldl (process_report_line pdf_snippets) w (line # rest)
       = foldl (process_report_line pdf_snippets) w rest
   \<and> present (delete_file w p) = present w
   \<and> log (delete_file w p) = log w @ [Delete_error p OSError]"
  by (simp add: process_report_line_def os_path_exists_def delete_file_present delete_file_log)

theorem missing_target_is_silent_witness:
  "py_contains ''are duplicates'' quoted_report
   \<and> parse_duplicate_line quoted_report = Inr (''A.pdf'', ''B.pdf'')
   \<and> find_path [(''A.pdf'', ''Hello world.''), (''B.pdf'', ''Hello world.'')] ''B.pdf'' = Some ''B.pdf''
   \<and> \<not> os_path_exists (sample_world [''A.pdf'']) ''B.pdf''
   \<and> process_report_line [(''A.pdf'', ''Hello world.''), (''B.pdf'', ''Hello world.'')]
         (sample_world [''A.pdf'']) quoted_report = sample_world [''A.pdf'']
   \<and> log (delete_file (sample_world [''A.pdf'']) ''B.pdf'') = [Delete_error ''B.pdf'' OSError]"
proof -
  have m: "py_contains ''are duplicates'' quoted_report"
    by (simp add: quoted_report_def)
  have p: "parse_duplicate_line quoted_report = Inr (''A.pdf'', ''B.pdf'')"
    by (simp add: eval_defs quoted_report_def)
  have f: "find_path [(''A.pdf'', ''Hello world.''), (''B.pdf'', ''Hello world.'')] ''B.pdf'' = Some ''B.pdf''"
    by (simp add: eval_defs)
  have gone: "\<not> os_path_exists (sample_world [''A.pdf'']) ''B.pdf''"
    by (simp add: os_path_exists_def sample_world_def)
  have "log (sample_world [''A.pdf'']) = []" by (simp add: sample_world_def)
  with missing_target_is_silent [OF m p f gone, of "[]"] m p f gone
  show ?thesis by simp
qed

text \<open>
  Claim C7 as stated fails on a report whose two pairs share their second file: the first
  line deletes it and logs the deletion, the second line finds it gone and logs nothing.
\<close>

theorem missing_target_leaves_no_log_entry:
  "removals (snd (process_pdfs_for_duplicates (sample_env [''A.pdf'', ''B.pdf'', ''C.pdf''] [] ''Hello world.'' repeated_report)
       (sample_world [''A.pdf'', ''B.pdf'', ''C.pdf'']) ''*.pdf'' (Some 1) None 3 True)) = [''B.pdf'']
   \<and> log (snd (process_pdfs_for_duplicates (sample_env [''A.pdf'', ''B.pdf'', ''C.pdf''] [] ''Hello world.'' repeated_report)
       (sample_world [''A.pdf'', ''B.pdf'', ''C.pdf'']) ''*.pdf'' (Some 1) None 3 True))
       = [Duplicate_report repeated_report, Deleted_file ''B.pdf'']"
  by (simp add: eval_defs repeated_report_def)

end
